theory Spec2Isabelle
  imports Main "HOL-Library.AList" "HOL-Library.Sublist" "HOL-Library.Word"
begin

unbundle bit_operations_syntax

section \<open>Paths, buffers and exceptions\<close>

text \<open>
  Modelled from the spec: a \<open>Path\<close> is an absolute, normalised, \<open>/\<close>-delimited string (the
  path type and its functions belong to the core package, which is not part of these
  sources).  It is kept as its list of fragments, the root being the empty list.  Every
  public method of \<open>HostTree\<close> starts with \<open>this._normalizePath(path)\<close>; the functions
  below take the path after that step, and \<open>normalize\<close> is the identity on a value that
  already is a \<open>Path\<close>.  A \<open>Buffer\<close> is a byte sequence; \<open>new Buffer(content)\<close> of a
  string is the sequence of its bytes, so both argument forms of \<open>create\<close> and
  \<open>overwrite\<close> are one type.
\<close>

type_synonym PathFragment = string
type_synonym Path = "PathFragment list"
type_synonym Buffer = string

text \<open>Modelled from the spec: \<open>join\<close> of the core package appends one fragment to a path.\<close>

definition join :: "Path \<Rightarrow> PathFragment \<Rightarrow> Path" where
  "join p fragment = p @ [fragment]"

text \<open>Modelled from the spec: \<open>dirname\<close> of the core package drops the last fragment; the
  root is its own \<open>dirname\<close>.\<close>

definition dirname :: "Path \<Rightarrow> Path" where
  "dirname p = butlast p"

datatype exn =
    PathIsDirectoryException Path
  | PathIsFileException Path
  | ContentHasMutatedException Path
  | FileAlreadyExistException Path
  | FileDoesNotExistException Path
  | InvalidUpdateRecordException
  | MergeConflictException Path
  | SchematicsException string
  | FileVisitorCancelToken
  | VisitorFailure string

section \<open>The overlay (CordHost) over a backend\<close>

type_synonym Files = "(Path \<times> Buffer) list"

datatype CordHostRecord =
    Create Path Buffer
  | Overwrite Path Buffer
  | Rename Path Path
  | Delete Path

text \<open>
  The backend handed to the constructor of a \<open>HostTree\<close> is an object reference: either a
  read-only host with a fixed content (\<open>virtualFs.Empty\<close> is \<open>ReadonlyFiles []\<close>), or the
  \<open>CordHost\<close> of another tree, named by the address of that tree in the store.
\<close>

datatype Backend = ReadonlyFiles Files | CordRef nat

record CordHost =
  cord_backend :: Backend
  cord_records :: "CordHostRecord list"

record HostTree =
  tree_id :: nat
  record_host :: CordHost
  dirCache :: "Path list"

text \<open>
  The store holds every \<open>HostTree\<close> constructed so far, in construction order: the
  address of a tree is its position, and the module counter \<open>_uniqueId\<close> is the length
  of the store.  \<open>_recordSync\<close> is a synchronous view of \<open>_record\<close> and has no state of
  its own.  \<open>_dirCache\<close> maps a path to the \<open>HostDirEntry\<close> built for that path; it is
  kept as the list of its keys.
\<close>

type_synonym store = "HostTree list"

text \<open>
  Modelled from the spec: the effect of one record of the overlay's log on the file table
  (\<open>CordHost\<close> is not part of these sources).  The logical content of a path is obtained
  by applying the records in order on top of the backend's view.
\<close>

fun apply_record :: "CordHostRecord \<Rightarrow> Files \<Rightarrow> Files" where
  "apply_record (Create p c) fs = AList.update p c fs"
| "apply_record (Overwrite p c) fs = AList.update p c fs"
| "apply_record (Rename p to) fs =
     (case map_of fs p of
        None \<Rightarrow> fs
      | Some c \<Rightarrow> AList.update to c (AList.delete p fs))"
| "apply_record (Delete p) fs = AList.delete p fs"

text \<open>
  Modelled from the spec: the resolved file table of the overlay of the tree at address
  \<open>a\<close>.  A backend that is another tree's overlay is read through at the time of the
  query, so it is resolved in the store as it is now; an overlay can only have been built
  over an object that existed before it, hence the older part \<open>take a st\<close> of the store.
\<close>

function cord_files :: "store \<Rightarrow> nat \<Rightarrow> Files" where
  "cord_files st a =
     (if a < length st
      then fold apply_record (cord_records (record_host (st ! a)))
             (case cord_backend (record_host (st ! a)) of
                ReadonlyFiles fs \<Rightarrow> fs
              | CordRef b \<Rightarrow> cord_files (take a st) b)
      else [])"
  by pat_completeness auto
termination
  by (relation "measure (\<lambda>(st, a). length st)") auto

declare cord_files.simps [simp del]

text \<open>
  Modelled from the spec: the synchronous queries of the overlay (\<open>_recordSync\<close>).  A path
  is a file when the resolved table has content at it; it is a directory when it is not
  a file and some file lies strictly under it, so that a path is never both; it exists
  when it is one or the other.  \<open>list\<close> gives the children of a path in the order of the
  resolved table.
\<close>

definition host_read :: "store \<Rightarrow> nat \<Rightarrow> Path \<Rightarrow> Buffer option" where
  "host_read st a p = map_of (cord_files st a) p"

text \<open>Modelled from the spec: \<open>isFile\<close> of the overlay, content is at the path.\<close>

definition host_isFile :: "store \<Rightarrow> nat \<Rightarrow> Path \<Rightarrow> bool" where
  "host_isFile st a p = (host_read st a p \<noteq> None)"

text \<open>Modelled from the spec: \<open>isDirectory\<close> of the overlay, no file is at the path and
  some file lies strictly under it.\<close>

definition host_isDirectory :: "store \<Rightarrow> nat \<Rightarrow> Path \<Rightarrow> bool" where
  "host_isDirectory st a p =
     (\<not> host_isFile st a p \<and> list_ex (strict_prefix p) (map fst (cord_files st a)))"

text \<open>Modelled from the spec: \<open>exists\<close> of the overlay, a file or a directory.\<close>

definition host_exists :: "store \<Rightarrow> nat \<Rightarrow> Path \<Rightarrow> bool" where
  "host_exists st a p = (host_isFile st a p \<or> host_isDirectory st a p)"

text \<open>Modelled from the spec: \<open>list\<close> of the overlay, the first fragments below the
  path of the files under it, each once, in the order of the resolved table.\<close>

definition host_list :: "store \<Rightarrow> nat \<Rightarrow> Path \<Rightarrow> PathFragment list" where
  "host_list st a p =
     remdups (map (\<lambda>q. q ! length p) (filter (strict_prefix p) (map fst (cord_files st a))))"

text \<open>
  Modelled from the spec: the predicates over the pending records of the overlay, used by
  the conflict detection of \<open>merge\<close>.
\<close>

definition willCreate :: "store \<Rightarrow> nat \<Rightarrow> Path \<Rightarrow> bool" where
  "willCreate st a p =
     list_ex (\<lambda>r. case r of Create q c \<Rightarrow> q = p | _ \<Rightarrow> False) (cord_records (record_host (st ! a)))"

text \<open>Modelled from the spec: \<open>willOverwrite\<close>, an \<open>Overwrite\<close> record of the path is
  pending.\<close>

definition willOverwrite :: "store \<Rightarrow> nat \<Rightarrow> Path \<Rightarrow> bool" where
  "willOverwrite st a p =
     list_ex (\<lambda>r. case r of Overwrite q c \<Rightarrow> q = p | _ \<Rightarrow> False) (cord_records (record_host (st ! a)))"

text \<open>Modelled from the spec: \<open>willRename\<close>, a \<open>Rename\<close> record from the path is
  pending.\<close>

definition willRename :: "store \<Rightarrow> nat \<Rightarrow> Path \<Rightarrow> bool" where
  "willRename st a p =
     list_ex (\<lambda>r. case r of Rename q to \<Rightarrow> q = p | _ \<Rightarrow> False) (cord_records (record_host (st ! a)))"

text \<open>Modelled from the spec: \<open>willDelete\<close>, a \<open>Delete\<close> record of the path is pending.\<close>

definition willDelete :: "store \<Rightarrow> nat \<Rightarrow> Path \<Rightarrow> bool" where
  "willDelete st a p =
     list_ex (\<lambda>r. case r of Delete q \<Rightarrow> q = p | _ \<Rightarrow> False) (cord_records (record_host (st ! a)))"

text \<open>
  Modelled from the spec: the mutations of the overlay.  Each one checks its precondition
  and then appends one record to the log of the overlay at address \<open>a\<close>; nothing else in
  the store changes.
\<close>

definition append_record :: "store \<Rightarrow> nat \<Rightarrow> CordHostRecord \<Rightarrow> store" where
  "append_record st a r =
     st[a := (st ! a)\<lparr>record_host :=
        (record_host (st ! a))\<lparr>cord_records := cord_records (record_host (st ! a)) @ [r]\<rparr>\<rparr>]"

text \<open>Modelled from the spec: \<open>create\<close> of the overlay fails with \<open>FileAlreadyExists\<close> if
  the path exists.\<close>

definition cord_create :: "store \<Rightarrow> nat \<Rightarrow> Path \<Rightarrow> Buffer \<Rightarrow> exn + store" where
  "cord_create st a p c =
     (if host_exists st a p then Inl (FileAlreadyExistException p)
      else Inr (append_record st a (Create p c)))"

text \<open>Modelled from the spec: \<open>overwrite\<close> of the overlay fails with \<open>FileDoesNotExist\<close>
  if the path does not resolve to a file.\<close>

definition cord_overwrite :: "store \<Rightarrow> nat \<Rightarrow> Path \<Rightarrow> Buffer \<Rightarrow> exn + store" where
  "cord_overwrite st a p c =
     (if \<not> host_isFile st a p then Inl (FileDoesNotExistException p)
      else Inr (append_record st a (Overwrite p c)))"

text \<open>Modelled from the spec: \<open>rename\<close> of the overlay fails with \<open>FileDoesNotExist\<close> if
  the source does not resolve to a file and with \<open>FileAlreadyExists\<close> if the target
  exists.\<close>

definition cord_rename :: "store \<Rightarrow> nat \<Rightarrow> Path \<Rightarrow> Path \<Rightarrow> exn + store" where
  "cord_rename st a p to =
     (if \<not> host_isFile st a p then Inl (FileDoesNotExistException p)
      else if host_exists st a to then Inl (FileAlreadyExistException to)
      else Inr (append_record st a (Rename p to)))"

text \<open>Modelled from the spec: \<open>delete\<close> of the overlay fails with \<open>FileDoesNotExist\<close> if
  the path does not resolve to a file.\<close>

definition cord_delete :: "store \<Rightarrow> nat \<Rightarrow> Path \<Rightarrow> exn + store" where
  "cord_delete st a p =
     (if \<not> host_isFile st a p then Inl (FileDoesNotExistException p)
      else Inr (append_record st a (Delete p)))"

section \<open>The update recorder\<close>

text \<open>
  Modelled from the spec: \<open>UpdateRecorderBase\<close> (not part of these sources) is a target
  path with an ordered list of patch operations.  \<open>apply\<close> walks the content from offset
  0; at each offset it emits the left insertions registered there in recorded order, then
  the original byte unless a remove range covers it, then the right insertions registered
  there.  The walk includes the offset just past the last byte, where only insertions
  can be emitted.  Any other implementation of the \<open>UpdateRecorder\<close> interface is
  \<open>OtherUpdateRecorder\<close>.
\<close>

datatype patch =
    InsertLeft nat Buffer
  | InsertRight nat Buffer
  | Remove nat nat

datatype UpdateRecorder =
    UpdateRecorderBase Path "patch list"
  | OtherUpdateRecorder

text \<open>Modelled from the spec: the left insertions registered at an offset, in recorded
  order.\<close>

definition lefts_at :: "patch list \<Rightarrow> nat \<Rightarrow> Buffer" where
  "lefts_at ps i = concat (map (\<lambda>x. case x of InsertLeft off b \<Rightarrow> if off = i then b else [] | _ \<Rightarrow> []) ps)"

text \<open>Modelled from the spec: the right insertions registered at an offset, in recorded
  order.\<close>

definition rights_at :: "patch list \<Rightarrow> nat \<Rightarrow> Buffer" where
  "rights_at ps i = concat (map (\<lambda>x. case x of InsertRight off b \<Rightarrow> if off = i then b else [] | _ \<Rightarrow> []) ps)"

text \<open>Modelled from the spec: an offset is removed when some remove range covers it.\<close>

definition removed_at :: "patch list \<Rightarrow> nat \<Rightarrow> bool" where
  "removed_at ps i = list_ex (\<lambda>x. case x of Remove off len \<Rightarrow> off \<le> i \<and> i < off + len | _ \<Rightarrow> False) ps"

text \<open>Modelled from the spec: \<open>apply\<close> of the recorder, the walk over the content.\<close>

definition recorder_apply :: "patch list \<Rightarrow> Buffer \<Rightarrow> Buffer" where
  "recorder_apply ps content =
     concat (map (\<lambda>i. lefts_at ps i
                      @ (if i < length content \<and> \<not> removed_at ps i then [content ! i] else [])
                      @ rights_at ps i)
                 [0 ..< length content + 1])"

text \<open>Modelled from the spec: the three recording operations append to the patch list.\<close>

fun insertLeft :: "UpdateRecorder \<Rightarrow> nat \<Rightarrow> Buffer \<Rightarrow> UpdateRecorder" where
  "insertLeft (UpdateRecorderBase p ps) off b = UpdateRecorderBase p (ps @ [InsertLeft off b])"
| "insertLeft OtherUpdateRecorder off b = OtherUpdateRecorder"

fun insertRight :: "UpdateRecorder \<Rightarrow> nat \<Rightarrow> Buffer \<Rightarrow> UpdateRecorder" where
  "insertRight (UpdateRecorderBase p ps) off b = UpdateRecorderBase p (ps @ [InsertRight off b])"
| "insertRight OtherUpdateRecorder off b = OtherUpdateRecorder"

fun remove_range :: "UpdateRecorder \<Rightarrow> nat \<Rightarrow> nat \<Rightarrow> UpdateRecorder" where
  "remove_range (UpdateRecorderBase p ps) off len = UpdateRecorderBase p (ps @ [Remove off len])"
| "remove_range OtherUpdateRecorder off len = OtherUpdateRecorder"

section \<open>HostTree\<close>

text \<open>
  The constructor: \<open>_id = _uniqueId++\<close>, a fresh overlay over the given backend.  It
  returns the store with the new object and the address of that object.
\<close>

definition new_HostTree :: "store \<Rightarrow> Backend \<Rightarrow> store \<times> nat" where
  "new_HostTree st b =
     (st @ [\<lparr>tree_id = length st,
             record_host = \<lparr>cord_backend = b, cord_records = []\<rparr>,
             dirCache = []\<rparr>], length st)"

text \<open>\<open>branch\<close> passes \<open>this._record\<close>, the overlay object of the parent itself.\<close>

definition branch :: "store \<Rightarrow> nat \<Rightarrow> store \<times> nat" where
  "branch st a = new_HostTree st (CordRef a)"

subsection \<open>Readonly methods\<close>

datatype FileEntry = LazyFileEntry Path

fun entry_path :: "FileEntry \<Rightarrow> Path" where
  "entry_path (LazyFileEntry p) = p"

text \<open>
  The content of a \<open>LazyFileEntry\<close> is loaded from the overlay when it is dereferenced.
  A path without content cannot be loaded; \<open>get\<close> only builds an entry for a path that
  exists.
\<close>

definition entry_content :: "store \<Rightarrow> nat \<Rightarrow> FileEntry \<Rightarrow> exn + Buffer" where
  "entry_content st a e =
     (case host_read st a (entry_path e) of
        None \<Rightarrow> Inl (FileDoesNotExistException (entry_path e))
      | Some b \<Rightarrow> Inr b)"

definition tree_exists :: "store \<Rightarrow> nat \<Rightarrow> Path \<Rightarrow> bool" where
  "tree_exists st a p = host_isFile st a p"

definition tree_get :: "store \<Rightarrow> nat \<Rightarrow> Path \<Rightarrow> exn + FileEntry option" where
  "tree_get st a p =
     (if host_isDirectory st a p then Inl (PathIsDirectoryException p)
      else if \<not> host_exists st a p then Inr None
      else Inr (Some (LazyFileEntry p)))"

definition tree_read :: "store \<Rightarrow> nat \<Rightarrow> Path \<Rightarrow> exn + Buffer option" where
  "tree_read st a p =
     (case tree_get st a p of
        Inl e \<Rightarrow> Inl e
      | Inr None \<Rightarrow> Inr None
      | Inr (Some entry) \<Rightarrow>
          (case entry_content st a entry of Inl e \<Rightarrow> Inl e | Inr b \<Rightarrow> Inr (Some b)))"

subsection \<open>Content and structural methods\<close>

text \<open>
  \<open>create\<close> and \<open>overwrite\<close> of the overlay give an observable, and the tree calls
  \<open>.subscribe()\<close> on it with no error callback: a failure of the overlay is not thrown to
  the caller, the call returns and the overlay is as it was.  \<open>delete\<close> and \<open>rename\<close> go
  through \<open>_recordSync\<close> and throw.
\<close>

definition subscribe :: "store \<Rightarrow> exn + store \<Rightarrow> store" where
  "subscribe st r = (case r of Inl e \<Rightarrow> st | Inr st' \<Rightarrow> st')"

definition tree_overwrite :: "store \<Rightarrow> nat \<Rightarrow> Path \<Rightarrow> Buffer \<Rightarrow> exn + store" where
  "tree_overwrite st a p c =
     (if \<not> host_exists st a p then Inl (FileDoesNotExistException p)
      else Inr (subscribe st (cord_overwrite st a p c)))"

definition beginUpdate :: "store \<Rightarrow> nat \<Rightarrow> Path \<Rightarrow> exn + UpdateRecorder" where
  "beginUpdate st a p =
     (case tree_get st a p of
        Inl e \<Rightarrow> Inl e
      | Inr None \<Rightarrow> Inl (FileDoesNotExistException p)
      | Inr (Some entry) \<Rightarrow> Inr (UpdateRecorderBase (entry_path entry) []))"

definition commitUpdate :: "store \<Rightarrow> nat \<Rightarrow> UpdateRecorder \<Rightarrow> exn + store" where
  "commitUpdate st a r =
     (case r of
        UpdateRecorderBase path ps \<Rightarrow>
          (case tree_get st a path of
             Inl e \<Rightarrow> Inl e
           | Inr None \<Rightarrow> Inl (ContentHasMutatedException path)
           | Inr (Some entry) \<Rightarrow>
               (case entry_content st a entry of
                  Inl e \<Rightarrow> Inl e
                | Inr content \<Rightarrow> tree_overwrite st a path (recorder_apply ps content)))
      | OtherUpdateRecorder \<Rightarrow> Inl InvalidUpdateRecordException)"

definition tree_create :: "store \<Rightarrow> nat \<Rightarrow> Path \<Rightarrow> Buffer \<Rightarrow> exn + store" where
  "tree_create st a p c =
     (if host_exists st a p then Inl (FileAlreadyExistException p)
      else Inr (subscribe st (cord_create st a p c)))"

definition tree_delete :: "store \<Rightarrow> nat \<Rightarrow> Path \<Rightarrow> exn + store" where
  "tree_delete st a p = cord_delete st a p"

definition tree_rename :: "store \<Rightarrow> nat \<Rightarrow> Path \<Rightarrow> Path \<Rightarrow> exn + store" where
  "tree_rename st a p to = cord_rename st a p to"

definition tree_apply :: "store \<Rightarrow> nat \<Rightarrow> 'action \<Rightarrow> 'strategy \<Rightarrow> exn + store" where
  "tree_apply st a action strategy =
     Inl (SchematicsException ''Apply not implemented on host trees.'')"

subsection \<open>Actions\<close>

datatype Action =
    CreateFileAction nat nat Path Buffer
  | OverwriteFileAction nat nat Path Buffer
  | RenameFileAction nat nat Path Path
  | DeleteFileAction nat nat Path

fun action_id :: "Action \<Rightarrow> nat" where
  "action_id (CreateFileAction i parent p c) = i"
| "action_id (OverwriteFileAction i parent p c) = i"
| "action_id (RenameFileAction i parent p to) = i"
| "action_id (DeleteFileAction i parent p) = i"

text \<open>
  Modelled from the spec: \<open>clean\<close> (a helper of the core package) filters the mapped
  records.  What it can drop are the entries for which the mapping callback returned
  nothing, its \<open>default\<close> branch, which none of the four kinds of record reaches.
\<close>

definition clean :: "'a option list \<Rightarrow> 'a list" where
  "clean xs = List.map_filter (\<lambda>x. x) xs"

fun action_of_record :: "nat \<Rightarrow> CordHostRecord \<Rightarrow> Action option" where
  "action_of_record i (Create p c) = Some (CreateFileAction i 0 p c)"
| "action_of_record i (Overwrite p c) = Some (OverwriteFileAction i 0 p c)"
| "action_of_record i (Rename p to) = Some (RenameFileAction i 0 p to)"
| "action_of_record i (Delete p) = Some (DeleteFileAction i 0 p)"

definition actions :: "store \<Rightarrow> nat \<Rightarrow> Action list" where
  "actions st a =
     clean (map (action_of_record (tree_id (st ! a))) (cord_records (record_host (st ! a))))"

subsection \<open>Merge\<close>

text \<open>
  The enumeration \<open>MergeStrategy\<close> is declared outside these sources; its three flags are
  taken as parameters.  A strategy is a number, and \<open>&\<close> works on its 32-bit value.
\<close>

record MergeStrategy =
  AllowOverwriteConflict :: "32 word"
  AllowCreationConflict :: "32 word"
  AllowDeleteConflict :: "32 word"

definition creationConflictAllowed :: "MergeStrategy \<Rightarrow> 32 word \<Rightarrow> bool" where
  "creationConflictAllowed ms strategy =
     (strategy AND AllowCreationConflict ms = AllowCreationConflict ms)"

definition overwriteConflictAllowed :: "MergeStrategy \<Rightarrow> 32 word \<Rightarrow> bool" where
  "overwriteConflictAllowed ms strategy =
     (strategy AND AllowOverwriteConflict ms = AllowOverwriteConflict ms)"

definition deleteConflictAllowed :: "MergeStrategy \<Rightarrow> 32 word \<Rightarrow> bool" where
  "deleteConflictAllowed ms strategy =
     (strategy AND AllowOverwriteConflict ms = AllowDeleteConflict ms)"

text \<open>
  The callback of \<open>other.actions.forEach\<close>, applied to the destination at address \<open>a\<close>.
  A create or an overwrite is issued on \<open>_record\<close> and subscribed to, so that of these two
  cases only the conflict is thrown; a rename or a delete goes through \<open>_recordSync\<close>.
\<close>

definition merge_action :: "MergeStrategy \<Rightarrow> 32 word \<Rightarrow> store \<Rightarrow> nat \<Rightarrow> Action \<Rightarrow> exn + store" where
  "merge_action ms strategy st a action =
     (if action_id action = tree_id (st ! a) then Inr st
      else case action of
        CreateFileAction i parent path content \<Rightarrow>
          if willCreate st a path \<or> willOverwrite st a path then
            if \<not> creationConflictAllowed ms strategy then Inl (MergeConflictException path)
            else Inr (subscribe st (cord_overwrite st a path content))
          else Inr (subscribe st (cord_create st a path content))
      | OverwriteFileAction i parent path content \<Rightarrow>
          if willOverwrite st a path \<and> \<not> overwriteConflictAllowed ms strategy
          then Inl (MergeConflictException path)
          else Inr (subscribe st (cord_overwrite st a path content))
      | RenameFileAction i parent path to \<Rightarrow>
          if willRename st a path then Inl (MergeConflictException path)
          else tree_rename st a path to
      | DeleteFileAction i parent path \<Rightarrow>
          if willDelete st a path \<and> \<not> deleteConflictAllowed ms strategy
          then Inl (MergeConflictException path)
          else cord_delete st a path)"

text \<open>
  \<open>forEach\<close> over the actions: an exception leaves the loop, and the destination keeps
  what the earlier actions did, so the exception is returned with the store at that point.
\<close>

fun merge_actions :: "MergeStrategy \<Rightarrow> 32 word \<Rightarrow> nat \<Rightarrow> Action list \<Rightarrow> store \<Rightarrow> (exn \<times> store) + store" where
  "merge_actions ms strategy a [] st = Inr st"
| "merge_actions ms strategy a (x # xs) st =
     (case merge_action ms strategy st a x of
        Inl e \<Rightarrow> Inl (e, st)
      | Inr st' \<Rightarrow> merge_actions ms strategy a xs st')"

definition merge :: "MergeStrategy \<Rightarrow> store \<Rightarrow> nat \<Rightarrow> nat \<Rightarrow> 32 word \<Rightarrow> (exn \<times> store) + store" where
  "merge ms st a other strategy =
     (if other = a then Inr st
      else merge_actions ms strategy a (actions st other) st)"

section \<open>Directory entries and traversal\<close>

text \<open>
  A \<open>HostDirEntry\<close> holds its parent entry, named here by the parent's path, and its own
  path; its host and its tree are the tree at address \<open>a\<close>.  \<open>subdirs\<close> and \<open>subfiles\<close>
  are computed from the host at each access.
\<close>

datatype DirEntry = HostDirEntry "Path option" Path

fun dir_path :: "DirEntry \<Rightarrow> Path" where
  "dir_path (HostDirEntry parent p) = p"

definition subdirs :: "store \<Rightarrow> nat \<Rightarrow> Path \<Rightarrow> PathFragment list" where
  "subdirs st a p =
     filter (\<lambda>fragment. host_isDirectory st a (join p fragment)) (host_list st a p)"

definition subfiles :: "store \<Rightarrow> nat \<Rightarrow> Path \<Rightarrow> PathFragment list" where
  "subfiles st a p =
     filter (\<lambda>fragment. host_isFile st a (join p fragment)) (host_list st a p)"

text \<open>
  \<open>getDir\<close>, with the cache passed explicitly: a path that is a file raises; a cached
  path gives its entry; otherwise the entry of the parent is fetched first (the root is
  its own \<open>dirname\<close> and has no parent) and the new entry is cached.
\<close>

function getDir_cached ::
  "store \<Rightarrow> nat \<Rightarrow> Path list \<Rightarrow> Path \<Rightarrow> exn + (DirEntry \<times> Path list)" where
  "getDir_cached st a cache p =
     (if host_isFile st a p then Inl (PathIsFileException p)
      else if p \<in> set cache
      then Inr (HostDirEntry (if p = dirname p then None else Some (dirname p)) p, cache)
      else if p = dirname p then Inr (HostDirEntry None p, p # cache)
      else case getDir_cached st a cache (dirname p) of
             Inl e \<Rightarrow> Inl e
           | Inr (parent, cache') \<Rightarrow> Inr (HostDirEntry (Some (dirname p)) p, p # cache'))"
  by pat_completeness auto
termination
proof (relation "measure (\<lambda>(st, a, cache, p). length p)")
  show "wf (measure (\<lambda>(st, a, cache, p). length p))" by simp
next
  fix st :: store and a :: nat and cache :: "Path list" and p :: Path
  assume "p \<noteq> dirname p"
  then have "p \<noteq> []" by (auto simp: dirname_def)
  then show "((st, a, cache, dirname p), (st, a, cache, p))
             \<in> measure (\<lambda>(st, a, cache, p). length p)"
    by (simp add: dirname_def)
qed

declare getDir_cached.simps [simp del]

definition set_dirCache :: "store \<Rightarrow> nat \<Rightarrow> Path list \<Rightarrow> store" where
  "set_dirCache st a cache = st[a := (st ! a)\<lparr>dirCache := cache\<rparr>]"

definition getDir :: "store \<Rightarrow> nat \<Rightarrow> Path \<Rightarrow> exn + (DirEntry \<times> store)" where
  "getDir st a p =
     (case getDir_cached st a (dirCache (st ! a)) p of
        Inl e \<Rightarrow> Inl e
      | Inr (d, cache) \<Rightarrow> Inr (d, set_dirCache st a cache))"

definition root :: "store \<Rightarrow> nat \<Rightarrow> exn + (DirEntry \<times> store)" where
  "root st a = getDir st a []"

text \<open>
  A visitor is called with a path and the entry of the file and may throw.  It has a
  state of its own; it is taken not to change the tree while the tree is traversed.  An
  outcome is a normal return or a thrown value, each with the state reached: what was
  done before a throw stays done.
\<close>

datatype 's outcome = Done 's | Threw exn 's

type_synonym 's FileVisitor = "Path \<Rightarrow> FileEntry option \<Rightarrow> 's \<Rightarrow> 's outcome"

fun state_of :: "'s outcome \<Rightarrow> 's" where
  "state_of (Done s) = s"
| "state_of (Threw e s) = s"

fun forEach :: "('a \<Rightarrow> 's \<Rightarrow> 's outcome) \<Rightarrow> 'a list \<Rightarrow> 's \<Rightarrow> 's outcome" where
  "forEach f [] s = Done s"
| "forEach f (x # xs) s =
     (case f x s of Done s' \<Rightarrow> forEach f xs s' | Threw e s' \<Rightarrow> Threw e s')"

lemma forEach_cong [fundef_cong]:
  "xs = ys \<Longrightarrow> s = t \<Longrightarrow> (\<And>x u. x \<in> set ys \<Longrightarrow> f x u = g x u)
   \<Longrightarrow> forEach f xs s = forEach g ys t"
proof (induction ys arbitrary: xs s t)
  case Nil
  then show ?case by simp
next
  case (Cons y ys)
  then show ?case by (auto split: outcome.splits)
qed

lemma getDir_cached_path:
  "getDir_cached st a cache p = Inr (d, cache') \<Longrightarrow> dir_path d = p"
  by (subst (asm) getDir_cached.simps) (auto split: if_splits sum.splits prod.splits)

text \<open>The length of the longest path of a file of the tree bounds the depth of a traversal.\<close>

definition max_depth :: "store \<Rightarrow> nat \<Rightarrow> nat" where
  "max_depth st a = Max (insert 0 (set (map (\<lambda>q. length (fst q)) (cord_files st a))))"

lemma subdir_deeper:
  assumes "x \<in> set (subdirs st a p)"
  shows "length (join p x) < Suc (max_depth st a) \<and> length p < length (join p x)"
proof -
  from assms have "host_isDirectory st a (join p x)"
    by (simp add: subdirs_def)
  then obtain q where q: "q \<in> set (map fst (cord_files st a))"
    and sp: "strict_prefix (join p x) q"
    by (auto simp: host_isDirectory_def list_ex_iff)
  from q have "length q \<in> insert 0 (set (map (\<lambda>q. length (fst q)) (cord_files st a)))"
    by auto
  then have "length q \<le> max_depth st a"
    unfolding max_depth_def by (intro Max_ge) auto
  moreover from sp have "length (join p x) < length q"
    by (metis prefix_length_less)
  ultimately show ?thesis by (simp add: join_def)
qed

text \<open>
  \<open>_recurse\<close> of \<open>HostDirEntry.visit\<close>: the visitor is called on every file of the entry,
  with the entry that \<open>entry.file\<close> gets from the tree (\<open>get\<close> of the joined path); then
  each subdirectory is fetched with \<open>entry.dir\<close> (\<open>getDir\<close> of the joined path) and
  traversed.  The files of the tree are those of the store \<open>st\<close> throughout; the cache
  and the state of the visitor are threaded through the two loops.
\<close>

function recurse ::
  "store \<Rightarrow> nat \<Rightarrow> 's FileVisitor \<Rightarrow> DirEntry \<Rightarrow> Path list \<times> 's
   \<Rightarrow> (Path list \<times> 's) outcome" where
  "recurse st a visitor entry cs =
     (case forEach
             (\<lambda>path (cache, s).
                case tree_get st a (join (dir_path entry) path) of
                  Inl e \<Rightarrow> Threw e (cache, s)
                | Inr file \<Rightarrow>
                    (case visitor (join (dir_path entry) path) file s of
                       Done s' \<Rightarrow> Done (cache, s')
                     | Threw e s' \<Rightarrow> Threw e (cache, s')))
             (subfiles st a (dir_path entry)) cs of
        Threw e cs' \<Rightarrow> Threw e cs'
      | Done cs' \<Rightarrow>
          forEach
            (\<lambda>path (cache, s).
               case getDir_cached st a cache (join (dir_path entry) path) of
                 Inl e \<Rightarrow> Threw e (cache, s)
               | Inr (d, cache') \<Rightarrow> recurse st a visitor d (cache', s))
            (subdirs st a (dir_path entry)) cs')"
  by pat_completeness auto
termination
proof (relation "measure (\<lambda>(st, a, visitor, entry, cs).
                      Suc (max_depth st a) - length (dir_path entry))")
  show "wf (measure (\<lambda>(st, a, visitor, entry, cs :: Path list \<times> 's).
                      Suc (max_depth st a) - length (dir_path entry)))"
    by simp
next
  fix st :: store and a :: nat and visitor :: "'s FileVisitor" and entry :: DirEntry
    and cs :: "Path list \<times> 's" and x :: PathFragment and cache :: "Path list"
    and b :: "DirEntry \<times> Path list" and d :: DirEntry and cache' :: "Path list" and s :: 's
  assume x: "x \<in> set (subdirs st a (dir_path entry))"
    and g: "getDir_cached st a cache (join (dir_path entry) x) = Inr b"
    and b: "(d, cache') = b"
  from g b have "dir_path d = join (dir_path entry) x"
    by (auto dest: getDir_cached_path)
  with subdir_deeper [OF x]
  show "((st, a, visitor, d, cache', s), (st, a, visitor, entry, cs))
        \<in> measure (\<lambda>(st, a, visitor, entry, cs).
                      Suc (max_depth st a) - length (dir_path entry))"
    by simp arith
qed

declare recurse.simps [simp del]

text \<open>\<open>HostDirEntry.visit\<close>: the cancel token is caught, anything else is thrown again.\<close>

definition dir_visit ::
  "store \<Rightarrow> nat \<Rightarrow> 's FileVisitor \<Rightarrow> DirEntry \<Rightarrow> Path list \<times> 's
   \<Rightarrow> (Path list \<times> 's) outcome" where
  "dir_visit st a visitor entry cs =
     (case recurse st a visitor entry cs of
        Done cs' \<Rightarrow> Done cs'
      | Threw e cs' \<Rightarrow> if e \<noteq> FileVisitorCancelToken then Threw e cs' else Done cs')"

text \<open>
  \<open>HostTree.visit\<close> is \<open>this.root.visit(visitor)\<close>: the root entry is fetched through the
  cache of the tree, and the cache reached at the end is the cache of the tree afterwards.
\<close>

definition tree_visit :: "store \<Rightarrow> nat \<Rightarrow> 's FileVisitor \<Rightarrow> 's \<Rightarrow> (store \<times> 's) outcome" where
  "tree_visit st a visitor s =
     (case getDir_cached st a (dirCache (st ! a)) [] of
        Inl e \<Rightarrow> Threw e (st, s)
      | Inr (entry, cache) \<Rightarrow>
          (case dir_visit st a visitor entry (cache, s) of
             Done (cache', s') \<Rightarrow> Done (set_dirCache st a cache', s')
           | Threw e (cache', s') \<Rightarrow> Threw e (set_dirCache st a cache', s')))"

text \<open>
  The order of a depth-first traversal as the specification words it: all files of the
  directory, then each subdirectory in turn, recursively.
\<close>

function visit_order :: "store \<Rightarrow> nat \<Rightarrow> Path \<Rightarrow> Path list" where
  "visit_order st a p =
     map (join p) (subfiles st a p)
     @ concat (map (\<lambda>x. visit_order st a (join p x)) (subdirs st a p))"
  by pat_completeness auto
termination
proof (relation "measure (\<lambda>(st, a, p). Suc (max_depth st a) - length p)")
  show "wf (measure (\<lambda>(st, a, p). Suc (max_depth st a) - length p))" by simp
next
  fix st :: store and a :: nat and p :: Path and x :: PathFragment
  assume "x \<in> set (subdirs st a p)"
  from subdir_deeper [OF this]
  show "((st, a, join p x), (st, a, p))
        \<in> measure (\<lambda>(st, a, p). Suc (max_depth st a) - length p)"
    by simp arith
qed

declare visit_order.simps [simp del]

text \<open>Calling a visitor on a list of files in turn, up to its first throw.\<close>

definition run_visitor :: "'s FileVisitor \<Rightarrow> Path list \<Rightarrow> 's \<Rightarrow> 's outcome" where
  "run_visitor visitor = forEach (\<lambda>p. visitor p (Some (LazyFileEntry p)))"

text \<open>Observers: a visitor that only keeps the paths it is called with, and a wrapper
  that keeps them beside the state of another visitor.\<close>

definition log_visitor :: "(Path list) FileVisitor" where
  "log_visitor p file visited = Done (visited @ [p])"

definition logged :: "'s FileVisitor \<Rightarrow> (Path list \<times> 's) FileVisitor" where
  "logged visitor p file vs =
     (case visitor p file (snd vs) of
        Done s' \<Rightarrow> Done (fst vs @ [p], s')
      | Threw e s' \<Rightarrow> Threw e (fst vs @ [p], s'))"

text \<open>Two visitors that count their calls and throw when they are called with a given
  path: one throws the cancel token, the other something else.\<close>

definition cancel_at :: "Path \<Rightarrow> nat FileVisitor" where
  "cancel_at target p file n =
     (if p = target then Threw FileVisitorCancelToken (Suc n) else Done (Suc n))"

definition fail_at :: "Path \<Rightarrow> nat FileVisitor" where
  "fail_at target p file n =
     (if p = target then Threw (VisitorFailure ''boom'') (Suc n) else Done (Suc n))"

section \<open>Sequences of calls on a tree\<close>

text \<open>
  A call of one of the mutating methods of the tree at address \<open>a\<close>, and the store
  after the call: a method that raises before it changes anything leaves the store as it
  was, and a merge that raises leaves what it had applied.
\<close>

datatype mutation =
    MCreate Path Buffer
  | MOverwrite Path Buffer
  | MDelete Path
  | MRename Path Path
  | MCommitUpdate UpdateRecorder
  | MMerge nat "32 word"

fun after_call :: "store \<Rightarrow> exn + store \<Rightarrow> store" where
  "after_call st (Inl e) = st"
| "after_call st (Inr st') = st'"

fun after_merge :: "(exn \<times> store) + store \<Rightarrow> store" where
  "after_merge (Inl (e, st')) = st'"
| "after_merge (Inr st') = st'"

fun mutate :: "MergeStrategy \<Rightarrow> nat \<Rightarrow> mutation \<Rightarrow> store \<Rightarrow> store" where
  "mutate ms a (MCreate p c) st = after_call st (tree_create st a p c)"
| "mutate ms a (MOverwrite p c) st = after_call st (tree_overwrite st a p c)"
| "mutate ms a (MDelete p) st = after_call st (tree_delete st a p)"
| "mutate ms a (MRename p to) st = after_call st (tree_rename st a p to)"
| "mutate ms a (MCommitUpdate r) st = after_call st (commitUpdate st a r)"
| "mutate ms a (MMerge other strategy) st = after_merge (merge ms st a other strategy)"

text \<open>A call on any tree of the store, given with the address of the tree.\<close>

fun call :: "MergeStrategy \<Rightarrow> nat \<times> mutation \<Rightarrow> store \<Rightarrow> store" where
  "call ms (x, m) st = mutate ms x m st"

text \<open>The paths a record of the log names.\<close>

fun record_paths :: "CordHostRecord \<Rightarrow> Path list" where
  "record_paths (Create p c) = [p]"
| "record_paths (Overwrite p c) = [p]"
| "record_paths (Rename p to) = [p, to]"
| "record_paths (Delete p) = [p]"

definition named_paths :: "store \<Rightarrow> nat \<Rightarrow> Path list" where
  "named_paths st a = concat (map record_paths (cord_records (record_host (st ! a))))"

text \<open>Two stores with the same objects over the same backends.\<close>

definition same_backends :: "store \<Rightarrow> store \<Rightarrow> bool" where
  "same_backends st st' =
     (length st' = length st
      \<and> (\<forall>i. cord_backend (record_host (st' ! i)) = cord_backend (record_host (st ! i))))"

text \<open>Two stores that differ at most in the object at address \<open>a\<close>.\<close>

definition same_except :: "nat \<Rightarrow> store \<Rightarrow> store \<Rightarrow> bool" where
  "same_except a st st' = (length st' = length st \<and> (\<forall>i. i \<noteq> a \<longrightarrow> st' ! i = st ! i))"

section \<open>Example data\<close>

text \<open>
  Single-bit flags: every flag of a strategy is one bit of the 32-bit value.
\<close>

definition is_flag :: "32 word \<Rightarrow> bool" where
  "is_flag w = list_ex (\<lambda>k. w = push_bit k 1) [0 ..< 32]"

definition example_flags :: MergeStrategy where
  "example_flags =
     \<lparr>AllowOverwriteConflict = 2, AllowCreationConflict = 4, AllowDeleteConflict = 8\<rparr>"

definition demo_files :: Files where
  "demo_files = [([''a''], ''1''), ([''dir'', ''b''], ''2'')]"

definition dir_first_files :: Files where
  "dir_first_files = [([''dir'', ''b''], ''2''), ([''a''], ''1''), ([''c''], ''3'')]"

definition dir_first_tree :: store where
  "dir_first_tree = fst (new_HostTree [] (ReadonlyFiles dir_first_files))"

text \<open>The store after an operation that is known to succeed.\<close>

fun ok :: "exn + store \<Rightarrow> store" where
  "ok (Inr st) = st"
| "ok (Inl e) = []"

definition one_tree :: store where
  "one_tree = fst (new_HostTree [] (ReadonlyFiles demo_files))"

definition two_trees :: store where
  "two_trees = fst (new_HostTree one_tree (ReadonlyFiles demo_files))"

text \<open>The tree at address 0 and a branch of it at address 1.\<close>

definition forked :: store where
  "forked = fst (branch one_tree 0)"

text \<open>Both trees overwrite \<open>/a\<close> with the same content.\<close>

definition same_overwrites :: store where
  "same_overwrites =
     ok (tree_overwrite (ok (tree_overwrite two_trees 0 [''a''] ''x'')) 1 [''a''] ''x'')"

text \<open>Both trees delete \<open>/a\<close>.\<close>

definition both_delete :: store where
  "both_delete = ok (tree_delete (ok (tree_delete two_trees 0 [''a''])) 1 [''a''])"





text \<open>The file \<open>/a\<close> is deleted and a file is created under it: \<open>/a\<close> is now a directory.\<close>

definition a_deleted :: store where
  "a_deleted = ok (tree_delete one_tree 0 [''a''])"

definition a_is_directory :: store where
  "a_is_directory = ok (tree_create a_deleted 0 [''a'', ''b''] ''3'')"

section \<open>The overlay after a record is appended\<close>

lemma cord_files_append_record:
  "a < length st \<Longrightarrow> cord_files (append_record st a r) a = apply_record r (cord_files st a)"
proof -
  assume a: "a < length st"
  let ?st = "append_record st a r"
  have len: "a < length ?st" using a by (simp add: append_record_def)
  have tk: "take a ?st = take a st" by (simp add: append_record_def)
  have at: "?st ! a = (st ! a)\<lparr>record_host :=
        (record_host (st ! a))\<lparr>cord_records := cord_records (record_host (st ! a)) @ [r]\<rparr>\<rparr>"
    using a by (simp add: append_record_def)
  show ?thesis
    by (subst cord_files.simps [of ?st a], subst cord_files.simps [of st a])
       (simp add: len a tk at split: Backend.splits)
qed

lemma tree_id_append_record [simp]:
  "tree_id (append_record st a r ! a) = tree_id (st ! a)"
  by (cases "a < length st") (simp_all add: append_record_def list_update_beyond)

lemma length_append_record [simp]: "length (append_record st a r) = length st"
  by (simp add: append_record_def)

lemma isFile_not_isDirectory: "host_isFile st a p \<Longrightarrow> \<not> host_isDirectory st a p"
  by (simp add: host_isDirectory_def)

lemma host_read_after_write:
  assumes "a < length st" "r = Create p c \<or> r = Overwrite p c"
  shows "host_read (append_record st a r) a p = Some c"
  using assms by (auto simp: host_read_def cord_files_append_record update_conv')

lemma tree_read_after_write:
  assumes "a < length st" "r = Create p c \<or> r = Overwrite p c"
  shows "tree_read (append_record st a r) a p = Inr (Some c)"
proof -
  have r: "host_read (append_record st a r) a p = Some c"
    using assms by (rule host_read_after_write)
  then have f: "host_isFile (append_record st a r) a p"
    by (simp add: host_isFile_def)
  then have "tree_get (append_record st a r) a p = Inr (Some (LazyFileEntry p))"
    by (simp add: tree_get_def host_exists_def isFile_not_isDirectory)
  then show ?thesis
    by (simp add: tree_read_def entry_content_def r)
qed

section \<open>Create\<close>

text \<open>
  Claim C9, as stated, says that \<open>create(path, content)\<close> raises exactly when
  \<open>exists(path)\<close> is already true.  \<open>exists\<close> of the tree is \<open>isFile\<close>, while \<open>create\<close>
  tests the overlay's \<open>exists\<close>, which holds of a directory too: on the directory \<open>/dir\<close>
  \<open>exists\<close> is false and \<open>create\<close> raises \<open>FileAlreadyExistException\<close>.
\<close>

theorem create_on_directory_counterexample:
  "tree_exists one_tree 0 [''dir''] = False
   \<and> tree_create one_tree 0 [''dir''] ''new'' = Inl (FileAlreadyExistException [''dir''])"
  by code_simp

text \<open>
  Claim C9, amended.  \<open>create(path, content)\<close> raises \<open>FileAlreadyExistException\<close> exactly
  when \<open>exists(path)\<close> is already true or the path is a directory.  Otherwise it succeeds
  by appending a \<open>Create\<close> record, and afterwards \<open>exists(path)\<close> is true and \<open>read(path)\<close>
  is the content.
\<close>

theorem create_spec:
  assumes "a < length st"
  shows "(tree_create st a p c = Inl (FileAlreadyExistException p))
           = (tree_exists st a p \<or> host_isDirectory st a p)
       \<and> (\<not> tree_exists st a p \<and> \<not> host_isDirectory st a p \<longrightarrow>
            tree_create st a p c = Inr (append_record st a (Create p c))
          \<and> tree_exists (append_record st a (Create p c)) a p
          \<and> tree_read (append_record st a (Create p c)) a p = Inr (Some c))"
proof -
  have "tree_exists (append_record st a (Create p c)) a p"
    using host_read_after_write [OF assms, of "Create p c" p c]
    by (simp add: tree_exists_def host_isFile_def)
  moreover have "tree_read (append_record st a (Create p c)) a p = Inr (Some c)"
    using assms by (simp add: tree_read_after_write)
  ultimately show ?thesis
    by (auto simp: tree_create_def subscribe_def cord_create_def tree_exists_def
          host_exists_def)
qed

theorem create_spec_witness:
  "\<not> tree_exists one_tree 0 [''x''] \<and> \<not> host_isDirectory one_tree 0 [''x'']
   \<and> tree_create one_tree 0 [''x''] ''new''
       = Inr (append_record one_tree 0 (Create [''x''] ''new''))
   \<and> tree_exists (append_record one_tree 0 (Create [''x''] ''new'')) 0 [''x'']
   \<and> tree_read (append_record one_tree 0 (Create [''x''] ''new'')) 0 [''x''] = Inr (Some ''new'')
   \<and> tree_exists one_tree 0 [''a'']
   \<and> tree_create one_tree 0 [''a''] ''new'' = Inl (FileAlreadyExistException [''a''])
   \<and> host_isDirectory one_tree 0 [''dir'']
   \<and> tree_create one_tree 0 [''dir''] ''new'' = Inl (FileAlreadyExistException [''dir''])"
proof -
  have len: "0 < length one_tree" by code_simp
  have x1: "\<not> tree_exists one_tree 0 [''x'']" by code_simp
  have x2: "\<not> host_isDirectory one_tree 0 [''x'']" by code_simp
  have yes: "tree_exists one_tree 0 [''a'']" by code_simp
  have dir: "host_isDirectory one_tree 0 [''dir'']" by code_simp
  note tx = create_spec [OF len, of "[''x'']" "''new''"]
  note ta = create_spec [OF len, of "[''a'']" "''new''"]
  note td = create_spec [OF len, of "[''dir'']" "''new''"]
  have rx: "tree_create one_tree 0 [''x''] ''new''
       = Inr (append_record one_tree 0 (Create [''x''] ''new''))
     \<and> tree_exists (append_record one_tree 0 (Create [''x''] ''new'')) 0 [''x'']
     \<and> tree_read (append_record one_tree 0 (Create [''x''] ''new'')) 0 [''x'']
         = Inr (Some ''new'')"
    using tx [THEN conjunct2] x1 x2 by blast
  have ra: "tree_create one_tree 0 [''a''] ''new'' = Inl (FileAlreadyExistException [''a''])"
    using ta [THEN conjunct1] yes by blast
  have rd: "tree_create one_tree 0 [''dir''] ''new'' = Inl (FileAlreadyExistException [''dir''])"
    using td [THEN conjunct1] dir by blast
  show ?thesis using x1 x2 rx yes ra dir rd by (intro conjI) blast+
qed

section \<open>Directories\<close>

text \<open>
  Claim C10.  For a path that resolves to a directory (no file is at it, some file lies
  strictly under it), \<open>exists(path)\<close> of the tree is false and \<open>get(path)\<close> raises
  \<open>PathIsDirectoryException\<close> instead of returning null.
\<close>

theorem exists_false_get_raises_on_directory:
  assumes "host_read st a p = None" and "host_read st a q \<noteq> None" and "strict_prefix p q"
  shows "\<not> tree_exists st a p \<and> tree_get st a p = Inl (PathIsDirectoryException p)"
proof -
  from assms(2) have "q \<in> set (map fst (cord_files st a))"
    by (auto simp: host_read_def map_of_eq_None_iff)
  with assms(3) have "list_ex (strict_prefix p) (map fst (cord_files st a))"
    by (auto simp: list_ex_iff)
  with assms(1) have "host_isDirectory st a p"
    by (simp add: host_isDirectory_def host_isFile_def)
  with assms(1) show ?thesis
    by (simp add: tree_exists_def tree_get_def host_isFile_def)
qed

theorem exists_false_get_raises_on_directory_witness:
  "host_read one_tree 0 [''dir''] = None
   \<and> host_read one_tree 0 [''dir'', ''b''] = Some ''2''
   \<and> strict_prefix [''dir''] [''dir'', ''b'']
   \<and> \<not> tree_exists one_tree 0 [''dir'']
   \<and> tree_get one_tree 0 [''dir''] = Inl (PathIsDirectoryException [''dir''])"
proof -
  have h1: "host_read one_tree 0 [''dir''] = None" by code_simp
  have h2: "host_read one_tree 0 [''dir'', ''b''] = Some ''2''" by code_simp
  then have h2': "host_read one_tree 0 [''dir'', ''b''] \<noteq> None" by simp
  have h3: "strict_prefix [''dir''] [''dir'', ''b'']" by simp
  show ?thesis
    using h1 h2 h3 exists_false_get_raises_on_directory [OF h1 h2' h3] by simp
qed

section \<open>Committing an update\<close>

text \<open>
  Claim C8, as stated, says that \<open>commitUpdate\<close> raises \<open>ContentHasMutatedException\<close>
  whenever the recorder's path no longer resolves to a file.  When the file was deleted
  after \<open>beginUpdate\<close> and a file was created under its path, the path is a directory:
  \<open>get\<close> raises \<open>PathIsDirectoryException\<close>, and \<open>commitUpdate\<close> lets it through.
\<close>

theorem commitUpdate_directory_counterexample:
  "beginUpdate one_tree 0 [''a''] = Inr (UpdateRecorderBase [''a''] [])
   \<and> a_is_directory = ok (tree_create (ok (tree_delete one_tree 0 [''a''])) 0 [''a'', ''b''] ''3'')
   \<and> \<not> tree_exists a_is_directory 0 [''a'']
   \<and> commitUpdate a_is_directory 0 (UpdateRecorderBase [''a''] [])
       = Inl (PathIsDirectoryException [''a''])"
  by code_simp

text \<open>
  Claim C8, amended.  A recorder that is not an \<open>UpdateRecorderBase\<close> raises
  \<open>InvalidUpdateRecordException\<close>.  Otherwise \<open>commitUpdate\<close> looks the recorder's path up
  again: it raises \<open>PathIsDirectoryException\<close> if the path is now a directory and
  \<open>ContentHasMutatedException\<close> if nothing is at the path; when the path is a file it
  applies the patch log to the current content and overwrites the file with the result,
  which is what \<open>read\<close> gives afterwards.
\<close>

theorem commitUpdate_cases:
  assumes "a < length st"
  shows "commitUpdate st a OtherUpdateRecorder = Inl InvalidUpdateRecordException
       \<and> commitUpdate st a (UpdateRecorderBase path ps) =
           (if host_isDirectory st a path then Inl (PathIsDirectoryException path)
            else case host_read st a path of
                   None \<Rightarrow> Inl (ContentHasMutatedException path)
                 | Some content \<Rightarrow>
                     Inr (append_record st a (Overwrite path (recorder_apply ps content))))
       \<and> (case commitUpdate st a (UpdateRecorderBase path ps) of
             Inl e \<Rightarrow> True
           | Inr st' \<Rightarrow>
               tree_read st' a path
                 = Inr (map_option (recorder_apply ps) (host_read st a path)))"
  using assms
  by (auto simp: commitUpdate_def tree_get_def host_exists_def host_isFile_def
        entry_content_def tree_overwrite_def subscribe_def cord_overwrite_def
        tree_read_after_write split: option.splits)

theorem commitUpdate_cases_witness:
  "commitUpdate a_deleted 0 (UpdateRecorderBase [''a''] [])
     = Inl (ContentHasMutatedException [''a''])
   \<and> commitUpdate one_tree 0 (UpdateRecorderBase [''a''] [InsertLeft 0 ''X''])
     = Inr (append_record one_tree 0 (Overwrite [''a''] ''X1''))
   \<and> tree_read (append_record one_tree 0 (Overwrite [''a''] ''X1'')) 0 [''a'']
     = Inr (Some ''X1'')"
proof -
  have len1: "0 < length a_deleted" by code_simp
  have len2: "0 < length one_tree" by code_simp
  have d1: "\<not> host_isDirectory a_deleted 0 [''a'']" by code_simp
  have r1: "host_read a_deleted 0 [''a''] = None" by code_simp
  have d2: "\<not> host_isDirectory one_tree 0 [''a'']" by code_simp
  have r2: "host_read one_tree 0 [''a''] = Some ''1''" by code_simp
  have ap: "recorder_apply [InsertLeft 0 ''X''] ''1'' = ''X1''" by code_simp
  note t1 = commitUpdate_cases [OF len1, of "[''a'']" "[]"]
  note t2 = commitUpdate_cases [OF len2, of "[''a'']" "[InsertLeft 0 ''X'']"]
  have c1: "commitUpdate a_deleted 0 (UpdateRecorderBase [''a''] [])
      = Inl (ContentHasMutatedException [''a''])"
    using t1 d1 r1 by simp
  have c2: "commitUpdate one_tree 0 (UpdateRecorderBase [''a''] [InsertLeft 0 ''X''])
      = Inr (append_record one_tree 0 (Overwrite [''a''] ''X1''))"
    using t2 d2 r2 ap by simp
  have c3: "tree_read (append_record one_tree 0 (Overwrite [''a''] ''X1'')) 0 [''a'']
      = Inr (Some ''X1'')"
    using t2 [THEN conjunct2, THEN conjunct2] by (simp add: c2 r2 ap)
  show ?thesis using c1 c2 c3 by simp
qed

section \<open>Merge\<close>

lemma and_single_bit:
  "(s::32 word) AND push_bit k 1 = 0 \<or> s AND push_bit k 1 = push_bit k 1"
proof (cases "bit s k")
  case True
  then have "s AND push_bit k 1 = push_bit k 1"
    by (intro bit_eqI) (auto simp: bit_and_iff bit_push_bit_iff bit_1_iff bit_exp_iff)
  then show ?thesis ..
next
  case False
  then have "s AND push_bit k 1 = 0"
    by (intro bit_eqI) (auto simp: bit_and_iff bit_push_bit_iff bit_1_iff bit_exp_iff)
  then show ?thesis ..
qed

lemma flag_nonzero: "is_flag w \<Longrightarrow> w \<noteq> 0"
  by (auto simp: is_flag_def list_ex_iff)

lemma flag_and: "is_flag w \<Longrightarrow> s AND w = 0 \<or> s AND w = w"
  using and_single_bit by (auto simp: is_flag_def list_ex_iff simp del: push_bit_of_1)

lemma deleteConflictAllowed_eq:
  assumes "is_flag (AllowOverwriteConflict ms)" "is_flag (AllowDeleteConflict ms)"
  shows "deleteConflictAllowed ms strategy =
     (overwriteConflictAllowed ms strategy \<and> AllowDeleteConflict ms = AllowOverwriteConflict ms)"
  using flag_and [OF assms(1), of strategy] flag_nonzero [OF assms(2)]
  by (auto simp: deleteConflictAllowed_def overwriteConflictAllowed_def)

lemma merge_action_tree_id:
  "merge_action ms strategy st a x = Inr st' \<Longrightarrow> tree_id (st' ! a) = tree_id (st ! a)"
  by (cases x)
     (auto simp: merge_action_def subscribe_def cord_create_def cord_overwrite_def
        cord_rename_def cord_delete_def tree_rename_def split: if_splits)

lemma merge_actions_filter:
  "merge_actions ms strategy a xs st =
   merge_actions ms strategy a (filter (\<lambda>x. action_id x \<noteq> tree_id (st ! a)) xs) st"
proof (induction xs arbitrary: st)
  case Nil
  show ?case by simp
next
  case (Cons x xs)
  show ?case
  proof (cases "action_id x = tree_id (st ! a)")
    case True
    then have "merge_action ms strategy st a x = Inr st"
      by (simp add: merge_action_def)
    with True Cons.IH [of st] show ?thesis by simp
  next
    case False
    show ?thesis
    proof (cases "merge_action ms strategy st a x")
      case (Inl e)
      with False show ?thesis by simp
    next
      case (Inr st')
      then have "tree_id (st' ! a) = tree_id (st ! a)" by (rule merge_action_tree_id)
      with False Inr Cons.IH [of st'] show ?thesis by simp
    qed
  qed
qed

text \<open>
  Claim C4.  \<open>merge\<close> skips every action whose originating tree id is the destination's
  own id: the actions with that id can be left out of the list without changing the
  result.  A list holding only such actions leaves the destination as it is, and so does
  merging a tree into itself.
\<close>

theorem merge_skips_own_actions:
  "merge_actions ms strategy a xs st =
     merge_actions ms strategy a (filter (\<lambda>x. action_id x \<noteq> tree_id (st ! a)) xs) st
   \<and> merge_actions ms strategy a (filter (\<lambda>x. action_id x = tree_id (st ! a)) ys) st = Inr st
   \<and> merge ms st a a strategy = Inr st"
proof -
  have "filter (\<lambda>x. action_id x \<noteq> tree_id (st ! a))
          (filter (\<lambda>x. action_id x = tree_id (st ! a)) ys) = []"
    by (induction ys) auto
  then have "merge_actions ms strategy a (filter (\<lambda>x. action_id x = tree_id (st ! a)) ys) st
      = Inr st"
    using merge_actions_filter
      [of ms strategy a "filter (\<lambda>x. action_id x = tree_id (st ! a)) ys" st]
    by simp
  then show ?thesis
    using merge_actions_filter [of ms strategy a xs st] by (simp add: merge_def)
qed

theorem merge_skips_own_actions_witness:
  "merge_actions example_flags 0 0
     [CreateFileAction 0 0 [''a''] ''own'', DeleteFileAction 0 0 [''zz'']] one_tree = Inr one_tree
   \<and> merge example_flags one_tree 0 0 0 = Inr one_tree"
proof -
  have f: "filter (\<lambda>x. action_id x = tree_id (one_tree ! 0))
             [CreateFileAction 0 0 [''a''] ''own'', DeleteFileAction 0 0 [''zz'']]
           = [CreateFileAction 0 0 [''a''] ''own'', DeleteFileAction 0 0 [''zz'']]"
    by code_simp
  show ?thesis
    using merge_skips_own_actions [of example_flags 0 0 "[]" one_tree
        "[CreateFileAction 0 0 [''a''] ''own'', DeleteFileAction 0 0 [''zz'']]"]
    by (simp only: f)
qed

text \<open>
  Claim C2.  A \<open>Delete\<close> action of the source on a path for which the destination has a
  pending delete raises \<open>MergeConflictException\<close> unless the delete-conflict allowance is
  set; otherwise the delete is applied.  The allowance is computed from the bits of the
  strategy under \<open>AllowOverwriteConflict\<close> alone, and with single-bit flags it holds only
  if the overwrite-conflict allowance holds too (and then only if the two flags are the
  same bit).
\<close>

theorem merge_delete_conflict:
  assumes "i \<noteq> tree_id (st ! a)"
    and "is_flag (AllowOverwriteConflict ms)" and "is_flag (AllowDeleteConflict ms)"
  shows "merge_action ms strategy st a (DeleteFileAction i parent path) =
           (if willDelete st a path \<and> \<not> deleteConflictAllowed ms strategy
            then Inl (MergeConflictException path) else cord_delete st a path)
       \<and> merge_actions ms strategy a (DeleteFileAction i parent path # rest) st =
           (if willDelete st a path \<and> \<not> deleteConflictAllowed ms strategy
            then Inl (MergeConflictException path, st)
            else case cord_delete st a path of
                   Inl e \<Rightarrow> Inl (e, st)
                 | Inr st' \<Rightarrow> merge_actions ms strategy a rest st')
       \<and> deleteConflictAllowed ms strategy =
           deleteConflictAllowed ms (strategy AND AllowOverwriteConflict ms)
       \<and> deleteConflictAllowed ms strategy =
           (overwriteConflictAllowed ms strategy
            \<and> AllowDeleteConflict ms = AllowOverwriteConflict ms)"
proof -
  have "deleteConflictAllowed ms strategy =
           deleteConflictAllowed ms (strategy AND AllowOverwriteConflict ms)"
    by (simp add: deleteConflictAllowed_def and.assoc)
  then show ?thesis
    using assms(1) deleteConflictAllowed_eq [OF assms(2,3), of strategy]
    by (simp add: merge_action_def)
qed

theorem merge_delete_conflict_witness:
  "willDelete both_delete 0 [''a'']
   \<and> actions both_delete 1 = [DeleteFileAction 1 0 [''a'']]
   \<and> \<not> deleteConflictAllowed example_flags 14
   \<and> overwriteConflictAllowed example_flags 14
   \<and> merge_actions example_flags 14 0 [DeleteFileAction 1 0 [''a'']] both_delete
       = Inl (MergeConflictException [''a''], both_delete)"
proof -
  have i: "1 \<noteq> tree_id (both_delete ! 0)" by code_simp
  have f1: "is_flag (AllowOverwriteConflict example_flags)" by code_simp
  have f2: "is_flag (AllowDeleteConflict example_flags)" by code_simp
  have w: "willDelete both_delete 0 [''a'']" by code_simp
  have acts: "actions both_delete 1 = [DeleteFileAction 1 0 [''a'']]" by code_simp
  have o: "overwriteConflictAllowed example_flags 14" by code_simp
  have ne: "AllowDeleteConflict example_flags \<noteq> AllowOverwriteConflict example_flags"
    by code_simp
  note t = merge_delete_conflict [OF i f1 f2, of 14 0 "[''a'']" "[]"]
  have nd: "\<not> deleteConflictAllowed example_flags 14"
    using t [THEN conjunct2, THEN conjunct2, THEN conjunct2] ne by simp
  have m: "merge_actions example_flags 14 0 [DeleteFileAction 1 0 [''a'']] both_delete
      = Inl (MergeConflictException [''a''], both_delete)"
    using t [THEN conjunct2, THEN conjunct1] w nd by (simp del: merge_actions.simps)
  show ?thesis using w acts o nd m by (intro conjI)
qed




text \<open>
  Claim C3 says that a pending overwrite with identical content is the same change and
  does not conflict, as the comment above the test in \<open>merge\<close> does.  The test itself
  only asks whether an overwrite is pending: with both trees overwriting \<open>/a\<close> with the
  content \<open>x\<close>, merging the second into the first under the default strategy raises
  \<open>MergeConflictException\<close>.
\<close>

theorem merge_overwrite_identical_content_raises:
  "tree_read same_overwrites 0 [''a''] = Inr (Some ''x'')
   \<and> actions same_overwrites 1 = [OverwriteFileAction 1 0 [''a''] ''x'']
   \<and> merge example_flags same_overwrites 0 1 0
       = Inl (MergeConflictException [''a''], same_overwrites)"
  by code_simp

section \<open>Traversal\<close>

lemma forEach_append:
  "forEach f (xs @ ys) s =
     (case forEach f xs s of Done s' \<Rightarrow> forEach f ys s' | Threw e s' \<Rightarrow> Threw e s')"
  by (induction xs arbitrary: s) (auto split: outcome.splits)

lemma forEach_concat:
  "forEach f (concat (map h xs)) s = forEach (\<lambda>x. forEach f (h x)) xs s"
  by (induction xs arbitrary: s) (auto simp: forEach_append split: outcome.splits)

lemma tree_get_file:
  "host_isFile st a p \<Longrightarrow> tree_get st a p = Inr (Some (LazyFileEntry p))"
  by (simp add: tree_get_def host_exists_def host_isDirectory_def)

lemma files_loop:
  assumes "\<forall>x \<in> set xs. host_isFile st a (join p x)"
  shows "forEach
           (\<lambda>path (cache, s).
              case tree_get st a (join p path) of
                Inl e \<Rightarrow> Threw e (cache, s)
              | Inr file \<Rightarrow>
                  (case visitor (join p path) file s of
                     Done s' \<Rightarrow> Done (cache, s')
                   | Threw e s' \<Rightarrow> Threw e (cache, s')))
           xs (cache, s)
         = (case run_visitor visitor (map (join p) xs) s of
              Done s' \<Rightarrow> Done (cache, s')
            | Threw e s' \<Rightarrow> Threw e (cache, s'))"
  using assms
  by (induction xs arbitrary: s)
     (auto simp: run_visitor_def tree_get_file split: outcome.splits)

lemma getDir_cached_child:
  assumes "\<not> host_isFile st a p" and "p \<in> set cache" and "\<not> host_isFile st a (join p x)"
  shows "\<exists>d cache'. getDir_cached st a cache (join p x) = Inr (d, cache')
           \<and> dir_path d = join p x \<and> set cache \<subseteq> set cache' \<and> join p x \<in> set cache'"
proof -
  have par: "getDir_cached st a cache p
      = Inr (HostDirEntry (if p = dirname p then None else Some (dirname p)) p, cache)"
    using assms(1,2) by (subst getDir_cached.simps) simp
  have dn: "dirname (join p x) = p" "join p x \<noteq> p"
    by (simp_all add: dirname_def join_def)
  show ?thesis
    using assms(3) par dn
    by (subst getDir_cached.simps) auto
qed

lemma dirs_loop:
  assumes ih: "\<And>x cache s d cache'. x \<in> set xs \<Longrightarrow>
             getDir_cached st a cache (join p x) = Inr (d, cache') \<Longrightarrow>
             join p x \<in> set cache' \<Longrightarrow>
             map_outcome snd (recurse st a visitor d (cache', s))
               = run_visitor visitor (visit_order st a (join p x)) s
             \<and> set cache' \<subseteq> set (fst (state_of (recurse st a visitor d (cache', s))))"
    and dirs: "\<forall>x \<in> set xs. host_isDirectory st a (join p x)"
    and p: "\<not> host_isFile st a p" "p \<in> set cache"
  shows "map_outcome snd
           (forEach
              (\<lambda>path (cache, s).
                 case getDir_cached st a cache (join p path) of
                   Inl e \<Rightarrow> Threw e (cache, s)
                 | Inr (d, cache') \<Rightarrow> recurse st a visitor d (cache', s))
              xs (cache, s))
         = forEach (\<lambda>x. run_visitor visitor (visit_order st a (join p x))) xs s
       \<and> set cache \<subseteq> set (fst (state_of
           (forEach
              (\<lambda>path (cache, s).
                 case getDir_cached st a cache (join p path) of
                   Inl e \<Rightarrow> Threw e (cache, s)
                 | Inr (d, cache') \<Rightarrow> recurse st a visitor d (cache', s))
              xs (cache, s))))"
  using ih dirs p(2)
proof (induction xs arbitrary: cache s)
  case Nil
  show ?case by simp
next
  case (Cons x xs)
  let ?F = "\<lambda>path (cache, s).
                 case getDir_cached st a cache (join p path) of
                   Inl e \<Rightarrow> Threw e (cache, s)
                 | Inr (d, cache') \<Rightarrow> recurse st a visitor d (cache', s)"
  from Cons.prems(2) have nf: "\<not> host_isFile st a (join p x)"
    by (simp add: host_isDirectory_def)
  from getDir_cached_child [OF p(1) Cons.prems(3) nf]
  obtain d cache' where g: "getDir_cached st a cache (join p x) = Inr (d, cache')"
    and sub: "set cache \<subseteq> set cache'" and mem: "join p x \<in> set cache'"
    by blast
  have step: "map_outcome snd (recurse st a visitor d (cache', s))
               = run_visitor visitor (visit_order st a (join p x)) s
             \<and> set cache' \<subseteq> set (fst (state_of (recurse st a visitor d (cache', s))))"
    by (rule Cons.prems(1) [OF _ g mem]) simp
  show ?case
  proof (cases "recurse st a visitor d (cache', s)")
    case (Threw e cs')
    with step have rv: "run_visitor visitor (visit_order st a (join p x)) s = Threw e (snd cs')"
      by simp
    from step Threw sub have "set cache \<subseteq> set (fst cs')" by auto
    with Threw g rv show ?thesis by simp
  next
    case (Done cs')
    obtain c2 s2 where cs': "cs' = (c2, s2)" by (cases cs')
    from step Done cs' sub Cons.prems(3) have p2: "p \<in> set c2" and sub2: "set cache \<subseteq> set c2"
      by auto
    have rest: "map_outcome snd (forEach ?F xs (c2, s2))
         = forEach (\<lambda>x. run_visitor visitor (visit_order st a (join p x))) xs s2
       \<and> set c2 \<subseteq> set (fst (state_of (forEach ?F xs (c2, s2))))"
    proof (rule Cons.IH [OF _ _ p2])
      fix y c t e c'
      assume "y \<in> set xs" and "getDir_cached st a c (join p y) = Inr (e, c')"
        and "join p y \<in> set c'"
      then show "map_outcome snd (recurse st a visitor e (c', t))
               = run_visitor visitor (visit_order st a (join p y)) t
             \<and> set c' \<subseteq> set (fst (state_of (recurse st a visitor e (c', t))))"
        by (intro Cons.prems(1)) simp_all
    next
      from Cons.prems(2) show "\<forall>x \<in> set xs. host_isDirectory st a (join p x)" by simp
    qed
    from step Done cs' have rv: "run_visitor visitor (visit_order st a (join p x)) s = Done s2"
      by simp
    from rest sub2 have "set cache \<subseteq> set (fst (state_of (forEach ?F xs (c2, s2))))"
      by blast
    with Done cs' g rv rest show ?thesis by simp
  qed
qed

lemma run_visitor_order:
  "run_visitor visitor (visit_order st a p) s =
     (case run_visitor visitor (map (join p) (subfiles st a p)) s of
        Done s' \<Rightarrow> forEach (\<lambda>x. run_visitor visitor (visit_order st a (join p x))) (subdirs st a p) s'
      | Threw e s' \<Rightarrow> Threw e s')"
  by (subst visit_order.simps)
     (simp add: run_visitor_def forEach_append forEach_concat split: outcome.splits)

lemma recurse_run:
  "\<not> host_isFile st a (dir_path entry) \<Longrightarrow> dir_path entry \<in> set (fst cs) \<Longrightarrow>
     map_outcome snd (recurse st a visitor entry cs)
       = run_visitor visitor (visit_order st a (dir_path entry)) (snd cs)
     \<and> set (fst cs) \<subseteq> set (fst (state_of (recurse st a visitor entry cs)))"
proof (induction st a visitor entry cs rule: recurse.induct)
  case (1 st a visitor entry cs)
  obtain cache s where cs: "cs = (cache, s)" by (cases cs)
  let ?p = "dir_path entry"
  let ?F1 = "\<lambda>path (cache, s).
                case tree_get st a (join ?p path) of
                  Inl e \<Rightarrow> Threw e (cache, s)
                | Inr file \<Rightarrow>
                    (case visitor (join ?p path) file s of
                       Done s' \<Rightarrow> Done (cache, s')
                     | Threw e s' \<Rightarrow> Threw e (cache, s'))"
  let ?F2 = "\<lambda>path (cache, s).
               case getDir_cached st a cache (join ?p path) of
                 Inl e \<Rightarrow> Threw e (cache, s)
               | Inr (d, cache') \<Rightarrow> recurse st a visitor d (cache', s)"
  have rec: "recurse st a visitor entry (cache, s) =
      (case forEach ?F1 (subfiles st a ?p) (cache, s) of
         Threw e cs' \<Rightarrow> Threw e cs'
       | Done cs' \<Rightarrow> forEach ?F2 (subdirs st a ?p) cs')"
    by (subst recurse.simps) simp
  have files: "forEach ?F1 (subfiles st a ?p) (cache, s)
      = (case run_visitor visitor (map (join ?p) (subfiles st a ?p)) s of
           Done s' \<Rightarrow> Done (cache, s')
         | Threw e s' \<Rightarrow> Threw e (cache, s'))"
    by (rule files_loop) (simp add: subfiles_def)
  show ?case
  proof (cases "run_visitor visitor (map (join ?p) (subfiles st a ?p)) s")
    case (Threw e s')
    with files have "recurse st a visitor entry (cache, s) = Threw e (cache, s')"
      by (simp add: rec)
    with Threw show ?thesis
      by (simp add: run_visitor_order [of visitor st a ?p] cs)
  next
    case (Done s1)
    with files have f1: "forEach ?F1 (subfiles st a ?p) cs = Done (cache, s1)"
      by (simp add: cs)
    then have r: "recurse st a visitor entry (cache, s) = forEach ?F2 (subdirs st a ?p) (cache, s1)"
      by (simp add: rec cs)
    have loop: "map_outcome snd (forEach ?F2 (subdirs st a ?p) (cache, s1))
         = forEach (\<lambda>x. run_visitor visitor (visit_order st a (join ?p x))) (subdirs st a ?p) s1
       \<and> set cache \<subseteq> set (fst (state_of (forEach ?F2 (subdirs st a ?p) (cache, s1))))"
    proof (rule dirs_loop)
      fix x c t d c'
      assume x: "x \<in> set (subdirs st a ?p)"
        and g: "getDir_cached st a c (join ?p x) = Inr (d, c')"
        and m: "join ?p x \<in> set c'"
      from g have dp: "dir_path d = join ?p x" by (rule getDir_cached_path)
      from x have "\<not> host_isFile st a (join ?p x)"
        by (simp add: subdirs_def host_isDirectory_def)
      with dp m have "map_outcome snd (recurse st a visitor d (c', t))
               = run_visitor visitor (visit_order st a (dir_path d)) (snd (c', t))
             \<and> set (fst (c', t)) \<subseteq> set (fst (state_of (recurse st a visitor d (c', t))))"
        by (intro "1.IH" [OF f1 x _ g]) simp_all
      with dp show "map_outcome snd (recurse st a visitor d (c', t))
               = run_visitor visitor (visit_order st a (join ?p x)) t
             \<and> set c' \<subseteq> set (fst (state_of (recurse st a visitor d (c', t))))"
        by simp
    next
      show "\<forall>x \<in> set (subdirs st a ?p). host_isDirectory st a (join ?p x)"
        by (simp add: subdirs_def)
    next
      from "1.prems" show "\<not> host_isFile st a ?p" by simp
    next
      from "1.prems" show "?p \<in> set cache" by (simp add: cs)
    qed
    with Done r show ?thesis
      by (simp add: run_visitor_order [of visitor st a ?p] cs)
  qed
qed

text \<open>The visit of a tree whose root is not a file: the visitor runs over the order,
  and the token is caught.\<close>

lemma tree_visit_run:
  assumes "\<not> host_isFile st a []"
  shows "map_outcome snd (tree_visit st a visitor s) =
           (case run_visitor visitor (visit_order st a []) s of
              Done s' \<Rightarrow> Done s'
            | Threw e s' \<Rightarrow> if e \<noteq> FileVisitorCancelToken then Threw e s' else Done s')"
proof -
  let ?c = "dirCache (st ! a)"
  let ?c' = "if [] \<in> set ?c then ?c else [] # ?c"
  let ?root = "HostDirEntry None []"
  have g: "getDir_cached st a ?c [] = Inr (?root, ?c')"
    using assms by (subst getDir_cached.simps) (simp add: dirname_def)
  have "\<not> host_isFile st a (dir_path ?root)" and "dir_path ?root \<in> set (fst (?c', s))"
    using assms by simp_all
  from recurse_run [OF this, of visitor]
  have r: "map_outcome snd (recurse st a visitor ?root (?c', s))
      = run_visitor visitor (visit_order st a []) s"
    by simp
  show ?thesis
  proof (cases "recurse st a visitor ?root (?c', s)")
    case (Done cs')
    with r have "run_visitor visitor (visit_order st a []) s = Done (snd cs')" by simp
    with Done g show ?thesis
      by (simp add: tree_visit_def dir_visit_def split: prod.splits)
  next
    case (Threw e cs')
    with r have "run_visitor visitor (visit_order st a []) s = Threw e (snd cs')" by simp
    with Threw g show ?thesis
      by (simp add: tree_visit_def dir_visit_def split: prod.splits)
  qed
qed

lemma run_logged_done:
  "run_visitor visitor xs s = Done s1 \<Longrightarrow>
   run_visitor (logged visitor) xs (visited, s) = Done (visited @ xs, s1)"
proof (induction xs arbitrary: s visited)
  case Nil
  then show ?case by (simp add: run_visitor_def)
next
  case (Cons x xs)
  from Cons.prems obtain s' where v: "visitor x (Some (LazyFileEntry x)) s = Done s'"
    and rest: "run_visitor visitor xs s' = Done s1"
    by (auto simp: run_visitor_def split: outcome.splits)
  from Cons.IH [OF rest, of "visited @ [x]"] v show ?case
    by (simp add: run_visitor_def logged_def)
qed

lemma dir_first_order:
  "visit_order dir_first_tree 0 [] = [[''a''], [''c''], [''dir'', ''b'']]"
proof -
  have f0: "subfiles dir_first_tree 0 [] = [''a'', ''c'']" by code_simp
  have d0: "subdirs dir_first_tree 0 [] = [''dir'']" by code_simp
  have f1: "subfiles dir_first_tree 0 [''dir''] = [''b'']" by code_simp
  have d1: "subdirs dir_first_tree 0 [''dir''] = []" by code_simp
  have "visit_order dir_first_tree 0 [''dir''] = [[''dir'', ''b'']]"
    by (subst visit_order.simps) (simp add: f1 d1 join_def)
  then show ?thesis
    by (subst visit_order.simps) (simp add: f0 d0 join_def)
qed

text \<open>
  Claim C6.  Let the visitor return normally on the files \<open>xs\<close> that come first in the
  traversal and throw at the next file \<open>y\<close>.  Then the traversal stops there: the
  visitor has been called on \<open>xs\<close> and \<open>y\<close> and on no later file, and its state is the
  one it threw with.  If it threw the cancel token, \<open>visit\<close> returns normally; anything
  else it threw reaches the caller of \<open>visit\<close>.
\<close>

theorem visit_cancel:
  assumes "\<not> host_isFile st a []"
    and "visit_order st a [] = xs @ y # ys"
    and "run_visitor visitor xs s = Done s1"
    and "visitor y (Some (LazyFileEntry y)) s1 = Threw e s2"
  shows "map_outcome snd (tree_visit st a (logged visitor) ([], s)) =
           (if e = FileVisitorCancelToken then Done (xs @ [y], s2)
            else Threw e (xs @ [y], s2))"
proof -
  have "run_visitor (logged visitor) xs ([], s) = Done (xs, s1)"
    using run_logged_done [OF assms(3), of "[]"] by simp
  moreover have "logged visitor y (Some (LazyFileEntry y)) (xs, s1) = Threw e (xs @ [y], s2)"
    using assms(4) by (simp add: logged_def)
  ultimately have "run_visitor (logged visitor) (visit_order st a []) ([], s)
      = Threw e (xs @ [y], s2)"
    by (simp add: assms(2) run_visitor_def forEach_append)
  then show ?thesis
    using tree_visit_run [OF assms(1), of "logged visitor" "([], s)"] by simp
qed

theorem visit_cancel_witness:
  "visit_order dir_first_tree 0 [] = [[''a''], [''c''], [''dir'', ''b'']]
   \<and> map_outcome snd (tree_visit dir_first_tree 0 (logged (cancel_at [''c''])) ([], 0))
     = Done ([[''a''], [''c'']], 2)
   \<and> map_outcome snd (tree_visit dir_first_tree 0 (logged (fail_at [''c''])) ([], 0))
     = Threw (VisitorFailure ''boom'') ([[''a''], [''c'']], 2)"
proof -
  have r: "\<not> host_isFile dir_first_tree 0 []" by code_simp
  have o: "visit_order dir_first_tree 0 [] = [[''a'']] @ [''c''] # [[''dir'', ''b'']]"
    using dir_first_order by simp
  have d: "run_visitor (cancel_at [''c'']) [[''a'']] 0 = Done 1"
    and d': "run_visitor (fail_at [''c'']) [[''a'']] 0 = Done 1"
    by (simp_all add: run_visitor_def cancel_at_def fail_at_def)
  have c: "cancel_at [''c''] [''c''] (Some (LazyFileEntry [''c''])) 1
      = Threw FileVisitorCancelToken 2"
    by (simp add: cancel_at_def)
  have f: "fail_at [''c''] [''c''] (Some (LazyFileEntry [''c''])) 1
      = Threw (VisitorFailure ''boom'') 2"
    by (simp add: fail_at_def)
  show ?thesis
    using dir_first_order visit_cancel [OF r o d c] visit_cancel [OF r o d' f] by simp
qed

text \<open>
  Claim C7.  \<open>visit\<close> calls the visitor on the files of the tree in depth-first order:
  for every directory, all files directly in it come before the files of any of its
  subdirectories, and so on recursively.
\<close>

theorem visit_depth_first:
  assumes "\<not> host_isFile st a []"
  shows "map_outcome snd (tree_visit st a log_visitor visited)
           = Done (visited @ visit_order st a [])
       \<and> visit_order st a p =
           map (join p) (subfiles st a p)
           @ concat (map (\<lambda>x. visit_order st a (join p x)) (subdirs st a p))"
proof -
  have "run_visitor log_visitor xs v = Done (v @ xs)" for xs v
    by (induction xs arbitrary: v) (simp_all add: run_visitor_def log_visitor_def)
  then show ?thesis
    using tree_visit_run [OF assms, of log_visitor visited] visit_order.simps [of st a p]
    by simp
qed

theorem visit_depth_first_witness:
  "\<not> host_isFile dir_first_tree 0 []
   \<and> host_list dir_first_tree 0 [] = [''dir'', ''a'', ''c'']
   \<and> map_outcome snd (tree_visit dir_first_tree 0 log_visitor [])
       = Done [[''a''], [''c''], [''dir'', ''b'']]"
proof -
  have r: "\<not> host_isFile dir_first_tree 0 []" by code_simp
  have l: "host_list dir_first_tree 0 [] = [''dir'', ''a'', ''c'']" by code_simp
  note o = dir_first_order
  show ?thesis
    using r l o visit_depth_first [OF r, of "[]" "[]"] by simp
qed

section \<open>Branching\<close>

lemma same_except_refl [simp]: "same_except a st st"
  by (simp add: same_except_def)

lemma same_except_trans:
  "same_except a st st' \<Longrightarrow> same_except a st' st'' \<Longrightarrow> same_except a st st''"
  by (simp add: same_except_def)

lemma same_except_append_record [simp]: "same_except a st (append_record st a r)"
  by (simp add: same_except_def append_record_def)

lemma cord_files_take: "a < n \<Longrightarrow> cord_files (take n st) a = cord_files st a"
  by (subst cord_files.simps [of "take n st" a], subst cord_files.simps [of st a])
     (simp add: min_absorb1 split: Backend.splits)

lemma cord_files_same_except:
  assumes "same_except b st st'" and "t < b"
  shows "cord_files st' t = cord_files st t"
proof -
  have "take b st' = take b st"
    using assms(1) by (auto simp: list_eq_iff_nth_eq same_except_def)
  then have "cord_files (take b st') t = cord_files (take b st) t" by simp
  with assms(2) show ?thesis by (simp add: cord_files_take)
qed

lemma merge_action_same_except:
  "merge_action ms strategy st a x = Inr st' \<Longrightarrow> same_except a st st'"
  by (cases x)
     (auto simp: merge_action_def subscribe_def cord_create_def cord_overwrite_def
        cord_rename_def cord_delete_def tree_rename_def split: if_splits)

lemma merge_actions_same_except:
  "same_except a st (after_merge (merge_actions ms strategy a xs st))"
proof (induction xs arbitrary: st)
  case Nil
  show ?case by simp
next
  case (Cons x xs)
  show ?case
  proof (cases "merge_action ms strategy st a x")
    case (Inl e)
    then show ?thesis by simp
  next
    case (Inr st')
    with Cons.IH [of st'] merge_action_same_except [OF Inr] show ?thesis
      by (auto intro: same_except_trans)
  qed
qed

lemma mutate_same_except: "same_except a st (mutate ms a m st)"
proof (cases m)
  case (MMerge other strategy)
  then show ?thesis
    using merge_actions_same_except [of a st ms strategy "actions st other"]
    by (simp add: merge_def)
qed (auto simp: tree_create_def cord_create_def tree_overwrite_def cord_overwrite_def
       tree_delete_def cord_delete_def tree_rename_def cord_rename_def commitUpdate_def
       subscribe_def split: UpdateRecorder.splits sum.splits option.splits if_splits)

lemma fold_mutate_same_except: "same_except a st (fold (mutate ms a) msl st)"
proof (induction msl arbitrary: st)
  case Nil
  show ?case by simp
next
  case (Cons m msl)
  from mutate_same_except [of a st ms m] Cons.IH [of "mutate ms a m st"]
  show ?case by (auto intro: same_except_trans)
qed

lemma fresh_branch_files:
  assumes "t < b" and "b < length st"
    and "record_host (st ! b) = \<lparr>cord_backend = CordRef t, cord_records = []\<rparr>"
  shows "cord_files st b = cord_files st t"
  using assms by (subst cord_files.simps [of st b]) (simp add: cord_files_take)

lemma tree_read_cong:
  "cord_files st a = cord_files st' a' \<Longrightarrow> tree_read st a p = tree_read st' a' p"
  by (simp add: tree_read_def tree_get_def entry_content_def host_exists_def
        host_isDirectory_def host_isFile_def host_read_def)

lemma tree_exists_cong:
  "cord_files st a = cord_files st' a' \<Longrightarrow> tree_exists st a p = tree_exists st' a' p"
  by (simp add: tree_exists_def host_isFile_def host_read_def)

lemma same_backends_refl [simp]: "same_backends st st"
  by (simp add: same_backends_def)

lemma same_backends_trans:
  "same_backends st st' \<Longrightarrow> same_backends st' st'' \<Longrightarrow> same_backends st st''"
  by (simp add: same_backends_def)

lemma same_backends_append_record [simp]: "same_backends st (append_record st a r)"
proof -
  have "cord_backend (record_host (append_record st a r ! i))
      = cord_backend (record_host (st ! i))" for i
    by (cases "a < length st"; cases "i = a")
       (simp_all add: append_record_def list_update_beyond)
  then show ?thesis by (simp add: same_backends_def)
qed

lemma merge_action_same_backends:
  "merge_action ms strategy st a x = Inr st' \<Longrightarrow> same_backends st st'"
  by (cases x)
     (auto simp: merge_action_def subscribe_def cord_create_def cord_overwrite_def
        cord_rename_def cord_delete_def tree_rename_def split: if_splits)

lemma merge_actions_same_backends:
  "same_backends st (after_merge (merge_actions ms strategy a xs st))"
proof (induction xs arbitrary: st)
  case Nil
  show ?case by simp
next
  case (Cons x xs)
  show ?case
  proof (cases "merge_action ms strategy st a x")
    case (Inl e)
    then show ?thesis by simp
  next
    case (Inr st')
    with Cons.IH [of st'] merge_action_same_backends [OF Inr] show ?thesis
      by (auto intro: same_backends_trans)
  qed
qed

lemma mutate_same_backends: "same_backends st (mutate ms a m st)"
proof (cases m)
  case (MMerge other strategy)
  then show ?thesis
    using merge_actions_same_backends [of st ms strategy a "actions st other"]
    by (simp add: merge_def)
qed (auto simp: tree_create_def cord_create_def tree_overwrite_def cord_overwrite_def
       tree_delete_def cord_delete_def tree_rename_def cord_rename_def commitUpdate_def
       subscribe_def split: UpdateRecorder.splits sum.splits option.splits if_splits)

lemma fold_call_same_backends: "same_backends st (fold (call ms) calls st)"
proof (induction calls arbitrary: st)
  case Nil
  show ?case by simp
next
  case (Cons c calls)
  obtain x m where c: "c = (x, m)" by (cases c)
  from mutate_same_backends [of st ms x m] Cons.IH [of "mutate ms x m st"]
  show ?case by (auto simp: c intro: same_backends_trans)
qed

lemma apply_record_other:
  "p \<notin> set (record_paths r) \<Longrightarrow> map_of (apply_record r fs) p = map_of fs p"
  by (cases r) (auto simp: update_conv' delete_conv' split: option.splits)

lemma fold_apply_record_other:
  "p \<notin> set (concat (map record_paths rs))
   \<Longrightarrow> map_of (fold apply_record rs fs) p = map_of fs p"
  by (induction rs arbitrary: fs) (simp_all add: apply_record_other)

lemma branch_over_parent:
  assumes "t < b" and "b < length s" and "cord_backend (record_host (s ! b)) = CordRef t"
  shows "cord_files s b = fold apply_record (cord_records (record_host (s ! b))) (cord_files s t)"
  using assms by (subst cord_files.simps [of s b]) (simp add: cord_files_take)

text \<open>
  Claim C1, as stated, says that a mutation of the parent after the fork is invisible to
  the branch.  \<open>branch\<close> builds the new tree over the parent's overlay object itself,
  and the branch reads through to it: a file created in the parent after the fork exists
  in the branch, and content overwritten in the parent is what the branch reads.
\<close>

theorem branch_sees_parent_counterexample:
  "branch one_tree 0 = (forked, 1)
   \<and> tree_exists forked 1 [''x''] = False
   \<and> tree_exists (ok (tree_create forked 0 [''x''] ''new'')) 1 [''x''] = True
   \<and> tree_read forked 1 [''a''] = Inr (Some ''1'')
   \<and> tree_read (ok (tree_overwrite forked 0 [''a''] ''2'')) 1 [''a''] = Inr (Some ''2'')"
  by code_simp

text \<open>
  Claim C1, amended.  Let \<open>b\<close> be the branch made of the tree \<open>t\<close>.  At the fork
  \<open>read\<close> and \<open>exists\<close> of the branch are those of the parent, and the fork leaves the
  parent as it was.  Calls on the branch (create, overwrite, delete, rename,
  commitUpdate, merging another tree into it), made in whatever store and in whatever
  number, leave \<open>read\<close> and \<open>exists\<close> of the parent as they were before the calls.  In the
  other direction the branch follows the parent: after any calls on any trees since the
  fork, at a path that none of the branch's own records names, \<open>exists\<close> and the content
  of the branch are those of the parent at that moment.
\<close>

theorem branch_isolation:
  assumes "t < length st" and "branch st t = (st1, b)"
  shows "tree_read st1 b p = tree_read st t p \<and> tree_exists st1 b p = tree_exists st t p
       \<and> tree_read st1 t p = tree_read st t p \<and> tree_exists st1 t p = tree_exists st t p
       \<and> tree_read (fold (mutate ms b) msl s) t p = tree_read s t p
       \<and> tree_exists (fold (mutate ms b) msl s) t p = tree_exists s t p
       \<and> (p \<notin> set (named_paths (fold (call ms) calls st1) b) \<longrightarrow>
            tree_exists (fold (call ms) calls st1) b p
              = tree_exists (fold (call ms) calls st1) t p
          \<and> host_read (fold (call ms) calls st1) b p
              = host_read (fold (call ms) calls st1) t p)"
proof -
  from assms(2) have st1: "st1 = st @ [\<lparr>tree_id = length st,
        record_host = \<lparr>cord_backend = CordRef t, cord_records = []\<rparr>, dirCache = []\<rparr>]"
    and b: "b = length st"
    by (auto simp: branch_def new_HostTree_def)
  have tb: "t < b" using assms(1) b by simp
  have keep: "cord_files st1 t = cord_files st t"
    using cord_files_take [of t "length st" st1] assms(1) by (simp add: st1)
  have fresh: "cord_files st1 b = cord_files st1 t"
    by (rule fresh_branch_files [OF tb]) (simp_all add: st1 b)
  have init: "cord_files st1 b = cord_files st t"
    using fresh keep by simp
  have iso: "cord_files (fold (mutate ms b) msl s) t = cord_files s t"
    by (rule cord_files_same_except [OF fold_mutate_same_except tb])
  let ?s = "fold (call ms) calls st1"
  have sb: "same_backends st1 ?s" by (rule fold_call_same_backends)
  then have len: "b < length ?s"
    and bk: "cord_backend (record_host (?s ! b)) = CordRef t"
    by (simp_all add: same_backends_def st1 b)
  have over: "cord_files ?s b
      = fold apply_record (cord_records (record_host (?s ! b))) (cord_files ?s t)"
    by (rule branch_over_parent [OF tb len bk])
  have follow: "host_read ?s b p = host_read ?s t p"
    if "p \<notin> set (named_paths ?s b)"
    using that by (simp add: host_read_def over named_paths_def fold_apply_record_other)
  then have follow': "tree_exists ?s b p = tree_exists ?s t p"
    if "p \<notin> set (named_paths ?s b)"
    using that by (simp add: tree_exists_def host_isFile_def)
  show ?thesis
    using tree_read_cong [OF init] tree_exists_cong [OF init]
      tree_read_cong [OF keep] tree_exists_cong [OF keep]
      tree_read_cong [OF iso] tree_exists_cong [OF iso]
      follow follow'
    by simp
qed

theorem branch_isolation_witness:
  "tree_read forked 1 [''a''] = tree_read one_tree 0 [''a'']
   \<and> tree_read one_tree 0 [''a''] = Inr (Some ''1'')
   \<and> tree_read (fold (mutate example_flags 1)
         [MOverwrite [''a''] ''2'', MCreate [''x''] ''n'']
         (ok (tree_overwrite forked 0 [''a''] ''3''))) 0 [''a'']
       = tree_read (ok (tree_overwrite forked 0 [''a''] ''3'')) 0 [''a'']
   \<and> tree_read (ok (tree_overwrite forked 0 [''a''] ''3'')) 0 [''a''] = Inr (Some ''3'')
   \<and> tree_read (fold (mutate example_flags 1)
         [MOverwrite [''a''] ''2'', MCreate [''x''] ''n'']
         (ok (tree_overwrite forked 0 [''a''] ''3''))) 1 [''a'']
       = Inr (Some ''2'')
   \<and> named_paths (fold (call example_flags)
         [(1, MCreate [''x''] ''n''), (0, MOverwrite [''a''] ''3'')] forked) 1 = [[''x'']]
   \<and> host_read (fold (call example_flags)
         [(1, MCreate [''x''] ''n''), (0, MOverwrite [''a''] ''3'')] forked) 1 [''a'']
       = host_read (fold (call example_flags)
         [(1, MCreate [''x''] ''n''), (0, MOverwrite [''a''] ''3'')] forked) 0 [''a'']
   \<and> host_read (fold (call example_flags)
         [(1, MCreate [''x''] ''n''), (0, MOverwrite [''a''] ''3'')] forked) 0 [''a'']
       = Some ''3''"
proof -
  let ?msl = "[MOverwrite [''a''] ''2'', MCreate [''x''] ''n'']"
  let ?s = "ok (tree_overwrite forked 0 [''a''] ''3'')"
  let ?calls = "[(1, MCreate [''x''] ''n''), (0, MOverwrite [''a''] ''3'')]"
  have len: "0 < length one_tree" by code_simp
  have br: "branch one_tree 0 = (forked, 1)" by code_simp
  have t1: "tree_read one_tree 0 [''a''] = Inr (Some ''1'')" by code_simp
  have t3: "tree_read ?s 0 [''a''] = Inr (Some ''3'')" by code_simp
  have b2: "tree_read (fold (mutate example_flags 1) ?msl ?s) 1 [''a''] = Inr (Some ''2'')"
    by code_simp
  have np: "named_paths (fold (call example_flags) ?calls forked) 1 = [[''x'']]"
    by code_simp
  have h3: "host_read (fold (call example_flags) ?calls forked) 0 [''a''] = Some ''3''"
    by code_simp
  note th = branch_isolation [OF len br, of "[''a'']" example_flags ?msl ?s ?calls]
  have c1: "tree_read forked 1 [''a''] = tree_read one_tree 0 [''a'']"
    using th by blast
  have c2: "tree_read (fold (mutate example_flags 1) ?msl ?s) 0 [''a'']
      = tree_read ?s 0 [''a'']"
    using th by blast
  have nin: "[''a''] \<notin> set (named_paths (fold (call example_flags) ?calls forked) 1)"
    unfolding np by simp
  have c3: "host_read (fold (call example_flags) ?calls forked) 1 [''a'']
      = host_read (fold (call example_flags) ?calls forked) 0 [''a'']"
    using th nin by blast
  show ?thesis using c1 t1 c2 t3 b2 np c3 h3 by (intro conjI)
qed

end
